theory Spec2Isabelle
  imports Main "HOL-Library.Word" "HOL-Library.Signed_Division"
begin

section \<open>Go integers and slices\<close>

text \<open>
  Go's \<open>int\<close> is a two's complement integer of the width of the target, 64 bits on
  the desktop targets of the tracker: \<open>+\<close> and \<open>-\<close> wrap around, comparisons are
  signed (\<open><s\<close>, \<open>\<le>s\<close>, read through \<open>sint\<close>), and \<open>%\<close> is the remainder of the
  division that truncates towards zero.
\<close>

type_synonym go_int = "64 word"

text \<open>
  Go's \<open>a % b\<close> on \<open>int\<close>. Both uses in the source have a non-zero divisor (a guard
  \<open>max == 0\<close> before the first, the constant length of \<open>temples\<close> in the second), so
  the division-by-zero panic is not a branch here.
\<close>

definition go_rem :: "go_int \<Rightarrow> go_int \<Rightarrow> go_int" where
  "go_rem a b = word_of_int (sint a smod sint b)"

text \<open>
  \<open>len(xs)\<close> as an \<open>int\<close>. A Go slice never holds more than \<open>2^63 - 1\<close> elements, so
  on every slice the program can build the conversion is exact.
\<close>

definition len :: "'a list \<Rightarrow> go_int" where
  "len xs = of_nat (length xs)"

text \<open>A run-time panic of the Go program.\<close>

datatype panic = IndexOutOfRange

text \<open>\<open>xs[i]\<close>: Go panics when \<open>i\<close> is negative or not below \<open>len(xs)\<close>.\<close>

definition index_go :: "'a list \<Rightarrow> go_int \<Rightarrow> panic + 'a" where
  "index_go xs i =
     (if 0 \<le>s i \<and> i <s len xs then Inr (xs ! unat i) else Inl IndexOutOfRange)"

section \<open>Items (tracker/item.go)\<close>

text \<open>
  The struct \<open>Item\<close>. It contains a slice of itself (\<open>ItemProgression\<close>), so it is a
  recursive datatype with one constructor and one selector per field, in the order of
  the struct's declaration.
\<close>

datatype Item = Item
  (Name: string)
  (X: go_int) (Y: go_int)
  (SheetX: go_int) (SheetY: go_int)
  (CapacityProgression: "go_int list")
  (ItemProgression: "Item list")
  (upgradeIndex: go_int) (templeIndex: go_int)
  (CountMax: go_int) (CountStep: go_int) (count: go_int)
  (IsMedallion: bool) (IsSong: bool) (Enabled: bool)

text \<open>Assignments to the four fields the methods write.\<close>

definition set_Enabled :: "bool \<Rightarrow> Item \<Rightarrow> Item" where
  "set_Enabled b it =
     Item (Name it) (X it) (Y it) (SheetX it) (SheetY it) (CapacityProgression it)
       (ItemProgression it) (upgradeIndex it) (templeIndex it)
       (CountMax it) (CountStep it) (count it) (IsMedallion it) (IsSong it) b"

definition set_upgradeIndex :: "go_int \<Rightarrow> Item \<Rightarrow> Item" where
  "set_upgradeIndex v it =
     Item (Name it) (X it) (Y it) (SheetX it) (SheetY it) (CapacityProgression it)
       (ItemProgression it) v (templeIndex it)
       (CountMax it) (CountStep it) (count it) (IsMedallion it) (IsSong it) (Enabled it)"

definition set_templeIndex :: "go_int \<Rightarrow> Item \<Rightarrow> Item" where
  "set_templeIndex v it =
     Item (Name it) (X it) (Y it) (SheetX it) (SheetY it) (CapacityProgression it)
       (ItemProgression it) (upgradeIndex it) v
       (CountMax it) (CountStep it) (count it) (IsMedallion it) (IsSong it) (Enabled it)"

definition set_count :: "go_int \<Rightarrow> Item \<Rightarrow> Item" where
  "set_count v it =
     Item (Name it) (X it) (Y it) (SheetX it) (SheetY it) (CapacityProgression it)
       (ItemProgression it) (upgradeIndex it) (templeIndex it)
       (CountMax it) (CountStep it) v (IsMedallion it) (IsSong it) (Enabled it)"

definition HasCapacity :: "Item \<Rightarrow> bool" where
  "HasCapacity it \<longleftrightarrow> 0 <s len (CapacityProgression it)"

definition IsCountable :: "Item \<Rightarrow> bool" where
  "IsCountable it \<longleftrightarrow> CountMax it \<noteq> 0"

definition Count :: "Item \<Rightarrow> go_int" where
  "Count it = count it"

text \<open>
  \<open>Capacity\<close>: \<open>-1\<close> without a capacity, the index itself for a countable item,
  otherwise the indexed element of \<open>CapacityProgression\<close> (a panic when the index is
  out of range).
\<close>

definition Capacity :: "Item \<Rightarrow> panic + go_int" where
  "Capacity it =
     (if \<not> HasCapacity it then Inr (- 1)
      else if IsCountable it then Inr (upgradeIndex it)
      else index_go (CapacityProgression it) (upgradeIndex it))"

definition countDown :: "Item \<Rightarrow> Item" where
  "countDown it =
     (let it1 = set_count (count it - CountStep it) it
      in if count it1 <s 0 then set_Enabled False (set_count 0 it1) else it1)"

definition countUp :: "Item \<Rightarrow> Item" where
  "countUp it =
     (let it1 = set_count (count it + CountStep it) it
      in if CountMax it1 <s count it1 then set_count (CountMax it1) it1 else it1)"

text \<open>
  The local variable \<open>max\<close> of \<open>Upgrade\<close> and \<open>Downgrade\<close> (the same five lines in
  both): declared as zero, then set from the first non-empty progression.
\<close>

definition progression_max :: "Item \<Rightarrow> go_int" where
  "progression_max it =
     (if 0 <s len (ItemProgression it) then len (ItemProgression it)
      else if 0 <s len (CapacityProgression it) then len (CapacityProgression it)
      else 0)"

text \<open>
  \<open>Upgrade\<close> and \<open>Downgrade\<close> change the item in place and report whether they did:
  the model returns the report and the item after the call.
\<close>

definition Upgrade :: "Item \<Rightarrow> bool \<times> Item" where
  "Upgrade it =
     (if \<not> Enabled it then (True, set_Enabled True it)
      else if IsCountable it then (True, countUp it)
      else
        let max = progression_max it
        in if max = 0 \<or> max \<le>s upgradeIndex it + 1 then (False, it)
           else (True, set_upgradeIndex (go_rem (upgradeIndex it + 1) max) it))"

definition Downgrade :: "Item \<Rightarrow> bool \<times> Item" where
  "Downgrade it =
     (if \<not> Enabled it then (False, it)
      else if IsCountable it then (True, countDown it)
      else
        let max = progression_max it
        in if max = 0 \<or> upgradeIndex it - 1 <s 0 then (True, set_Enabled False it)
           else (True, set_upgradeIndex (go_rem (upgradeIndex it - 1) max) it))"

text \<open>The table of temple labels: the empty label, \<open>Free\<close>, and eight dungeons.\<close>

definition temples :: "string list" where
  "temples =
     ['''', ''Free'',
      ''Deku'', ''DC'', ''Jabu'',
      ''Forest'', ''Fire'', ''Water'',
      ''Spirit'', ''Shdw'']"

definition CycleTemple :: "bool \<Rightarrow> Item \<Rightarrow> Item" where
  "CycleTemple up it =
     (if up then set_templeIndex (go_rem (templeIndex it + 1) (len temples)) it
      else if templeIndex it - 1 <s 0 then set_templeIndex (len temples - 1) it
      else set_templeIndex (templeIndex it - 1) it)"

definition TempleText :: "Item \<Rightarrow> panic + string" where
  "TempleText it = index_go temples (templeIndex it)"

section \<open>Calls in sequence\<close>

text \<open>
  A caller's sequence of \<open>Upgrade\<close> and \<open>Downgrade\<close> calls on one item, run from
  left to right; the reports are dropped, the item is threaded through.
\<close>

datatype call = CallUpgrade | CallDowngrade

fun apply_call :: "call \<Rightarrow> Item \<Rightarrow> bool \<times> Item" where
  "apply_call CallUpgrade it = Upgrade it"
| "apply_call CallDowngrade it = Downgrade it"

fun run_calls :: "call list \<Rightarrow> Item \<Rightarrow> Item" where
  "run_calls [] it = it"
| "run_calls (c # cs) it = run_calls cs (snd (apply_call c it))"

section \<open>The tracker (zone-item map, catalog lookup, reset)\<close>

text \<open>
  The errors of \<open>GetZoneItem\<close> and \<open>GetZoneItemIndex\<close>, one constructor per message:
  \<open>invalid zoneKP, must be [1-9]\<close>, \<open>invalid itemKP, must be [1-9]\<close>,
  \<open>no item defined for zone %d item %d\<close>, \<open>item name misconfigured: %s\<close>.
\<close>

datatype error =
    InvalidZoneKP
  | InvalidItemKP
  | NoItemDefined go_int go_int
  | ItemNameMisconfigured string

text \<open>
  The state of \<open>Tracker\<close> without its rendering handles (window geometry, images and
  fonts). \<open>ZoneItemMap\<close> is the array type \<open>[9][9]string\<close>: nine rows of nine cells.
  The types of \<open>input\<close> (\<open>kbInput\<close>) and of the stack entries (\<open>undoStackEntry\<close>) are
  declared in other files of the package and stay parameters.
\<close>

type_synonym ZoneItemMap = "string list list"

record ('k, 'u) Tracker =
  items :: "Item list"
  zoneItemMap :: ZoneItemMap
  locations :: "string list"
  input :: 'k
  woths :: "string list"
  barrens :: "string list"
  always :: "string list"
  sometimes :: "string list"
  undoStack :: "'u list"
  redoStack :: "'u list"

text \<open>
  The methods have a pointer receiver, so each returns the tracker after the call next
  to its Go results \<open>(value, error)\<close>, where \<open>None\<close> is the \<open>nil\<close> error.
\<close>

definition GetZoneItem ::
  "('k, 'u) Tracker \<Rightarrow> go_int \<Rightarrow> go_int \<Rightarrow> (string \<times> error option) \<times> ('k, 'u) Tracker" where
  "GetZoneItem tracker zoneKP itemKP =
     (if zoneKP \<le>s 0 \<or> 9 <s zoneKP then (([], Some InvalidZoneKP), tracker)
      else if itemKP \<le>s 0 \<or> 9 <s itemKP then (([], Some InvalidItemKP), tracker)
      else
        let name = zoneItemMap tracker ! unat (zoneKP - 1) ! unat (itemKP - 1)
        in if name = [] then (([], Some (NoItemDefined zoneKP itemKP)), tracker)
           else ((name, None), tracker))"

text \<open>
  The loop \<open>for k := range tracker.items\<close> of \<open>getItemIndexByName\<close>: \<open>k\<close> is the
  index of the head of the items still to visit.
\<close>

fun index_by_name_from :: "go_int \<Rightarrow> Item list \<Rightarrow> string \<Rightarrow> go_int" where
  "index_by_name_from k [] name = - 1"
| "index_by_name_from k (x # xs) name =
     (if Name x = name then k else index_by_name_from (k + 1) xs name)"

definition getItemIndexByName :: "('k, 'u) Tracker \<Rightarrow> string \<Rightarrow> go_int" where
  "getItemIndexByName tracker name = index_by_name_from 0 (items tracker) name"

definition GetZoneItemIndex ::
  "('k, 'u) Tracker \<Rightarrow> go_int \<Rightarrow> go_int \<Rightarrow> (go_int \<times> error option) \<times> ('k, 'u) Tracker" where
  "GetZoneItemIndex tracker zoneKP itemKP =
     (case GetZoneItem tracker zoneKP itemKP of
        ((name, Some err), tracker1) \<Rightarrow> ((- 1, Some err), tracker1)
      | ((name, None), tracker1) \<Rightarrow>
          let index = getItemIndexByName tracker1 name
          in if index <s 0 then ((- 1, Some (ItemNameMisconfigured name)), tracker1)
             else ((index, None), tracker1))"

text \<open>\<open>s[:0]\<close> keeps no element of \<open>s\<close>; \<open>[7]string{}\<close> is seven empty strings.\<close>

definition Reset ::
  "Item list \<Rightarrow> ZoneItemMap \<Rightarrow> ('k, 'u) Tracker \<Rightarrow> ('k, 'u) Tracker" where
  "Reset its zm tracker =
     tracker\<lparr>items := its,
             zoneItemMap := zm,
             undoStack := take 0 (undoStack tracker),
             redoStack := take 0 (redoStack tracker),
             woths := take 0 (woths tracker),
             barrens := take 0 (barrens tracker),
             sometimes := take 0 (sometimes tracker),
             always := replicate 7 []\<rparr>"

section \<open>Example configurations\<close>

text \<open>
  A stepped item with three capacities, a countable item without capacities (as the
  token counter is configured) and a medallion, each with the private fields as
  parameters; they are the concrete inputs of the checks below.
\<close>

definition quiver :: "go_int \<Rightarrow> bool \<Rightarrow> Item" where
  "quiver idx en = Item ''Quiver'' 0 0 0 0 [30, 40, 50] [] idx 0 0 0 0 False False en"

definition token :: "go_int \<Rightarrow> go_int \<Rightarrow> go_int \<Rightarrow> bool \<Rightarrow> Item" where
  "token cmax step c en =
     Item ''Gold Skulltula Token'' 0 0 0 0 [] [] 0 0 cmax step c False False en"

definition medallion :: "go_int \<Rightarrow> Item" where
  "medallion ti = Item ''Forest Medallion'' 0 0 0 0 [] [] 0 ti 0 0 0 True False False"

text \<open>
  A tracker whose map names the catalog's \<open>Hookshot\<close> in cell \<open>[4][4]\<close> and an item the
  catalog lacks in cell \<open>[0][1]\<close>; its history and hint lists are not empty.
\<close>

definition hookshot_map :: ZoneItemMap where
  "hookshot_map =
     (replicate 9 (replicate 9 []))
       [0 := (replicate 9 [])[1 := ''Boomerang''],
        4 := (replicate 9 [])[4 := ''Hookshot'']]"

definition hookshot_tracker :: "(unit, nat \<times> bool) Tracker" where
  "hookshot_tracker =
     \<lparr>items = [quiver 0 False,
               Item ''Hookshot'' 0 0 0 0 [] [] 0 0 0 0 0 False False False,
               Item ''Hookshot'' 0 0 0 0 [] [] 0 0 0 0 0 False False True],
      zoneItemMap = hookshot_map,
      locations = [''Kokiri Forest''],
      input = (),
      woths = [''Kokiri Forest''],
      barrens = [],
      always = [''10'', [], [], [], [], [], []],
      sometimes = [''note''],
      undoStack = [(0, True)],
      redoStack = [(1, False)]\<rparr>"

section \<open>Field assignments and 64-bit arithmetic\<close>

lemma set_Enabled_sel [simp]:
  "Name (set_Enabled b it) = Name it"
  "X (set_Enabled b it) = X it"
  "Y (set_Enabled b it) = Y it"
  "SheetX (set_Enabled b it) = SheetX it"
  "SheetY (set_Enabled b it) = SheetY it"
  "CapacityProgression (set_Enabled b it) = CapacityProgression it"
  "ItemProgression (set_Enabled b it) = ItemProgression it"
  "upgradeIndex (set_Enabled b it) = upgradeIndex it"
  "templeIndex (set_Enabled b it) = templeIndex it"
  "CountMax (set_Enabled b it) = CountMax it"
  "CountStep (set_Enabled b it) = CountStep it"
  "count (set_Enabled b it) = count it"
  "IsMedallion (set_Enabled b it) = IsMedallion it"
  "IsSong (set_Enabled b it) = IsSong it"
  "Enabled (set_Enabled b it) = b"
  by (simp_all add: set_Enabled_def)

lemma set_upgradeIndex_sel [simp]:
  "Name (set_upgradeIndex v it) = Name it"
  "X (set_upgradeIndex v it) = X it"
  "Y (set_upgradeIndex v it) = Y it"
  "SheetX (set_upgradeIndex v it) = SheetX it"
  "SheetY (set_upgradeIndex v it) = SheetY it"
  "CapacityProgression (set_upgradeIndex v it) = CapacityProgression it"
  "ItemProgression (set_upgradeIndex v it) = ItemProgression it"
  "upgradeIndex (set_upgradeIndex v it) = v"
  "templeIndex (set_upgradeIndex v it) = templeIndex it"
  "CountMax (set_upgradeIndex v it) = CountMax it"
  "CountStep (set_upgradeIndex v it) = CountStep it"
  "count (set_upgradeIndex v it) = count it"
  "IsMedallion (set_upgradeIndex v it) = IsMedallion it"
  "IsSong (set_upgradeIndex v it) = IsSong it"
  "Enabled (set_upgradeIndex v it) = Enabled it"
  by (simp_all add: set_upgradeIndex_def)

lemma set_templeIndex_sel [simp]:
  "Name (set_templeIndex v it) = Name it"
  "X (set_templeIndex v it) = X it"
  "Y (set_templeIndex v it) = Y it"
  "SheetX (set_templeIndex v it) = SheetX it"
  "SheetY (set_templeIndex v it) = SheetY it"
  "CapacityProgression (set_templeIndex v it) = CapacityProgression it"
  "ItemProgression (set_templeIndex v it) = ItemProgression it"
  "upgradeIndex (set_templeIndex v it) = upgradeIndex it"
  "templeIndex (set_templeIndex v it) = v"
  "CountMax (set_templeIndex v it) = CountMax it"
  "CountStep (set_templeIndex v it) = CountStep it"
  "count (set_templeIndex v it) = count it"
  "IsMedallion (set_templeIndex v it) = IsMedallion it"
  "IsSong (set_templeIndex v it) = IsSong it"
  "Enabled (set_templeIndex v it) = Enabled it"
  by (simp_all add: set_templeIndex_def)

lemma set_count_sel [simp]:
  "Name (set_count v it) = Name it"
  "X (set_count v it) = X it"
  "Y (set_count v it) = Y it"
  "SheetX (set_count v it) = SheetX it"
  "SheetY (set_count v it) = SheetY it"
  "CapacityProgression (set_count v it) = CapacityProgression it"
  "ItemProgression (set_count v it) = ItemProgression it"
  "upgradeIndex (set_count v it) = upgradeIndex it"
  "templeIndex (set_count v it) = templeIndex it"
  "CountMax (set_count v it) = CountMax it"
  "CountStep (set_count v it) = CountStep it"
  "count (set_count v it) = v"
  "IsMedallion (set_count v it) = IsMedallion it"
  "IsSong (set_count v it) = IsSong it"
  "Enabled (set_count v it) = Enabled it"
  by (simp_all add: set_count_def)

lemma set_twice [simp]:
  "set_count v (set_count w it) = set_count v it"
  "set_upgradeIndex v (set_upgradeIndex w it) = set_upgradeIndex v it"
  "set_Enabled b (set_Enabled c it) = set_Enabled b it"
  "set_templeIndex v (set_templeIndex w it) = set_templeIndex v it"
  by (simp_all add: set_count_def set_upgradeIndex_def set_Enabled_def set_templeIndex_def)

text \<open>The remainder leaves a non-negative value below the divisor as it is.\<close>

lemma go_rem_id: "0 \<le>s a \<Longrightarrow> a <s b \<Longrightarrow> go_rem a b = a"
  by (simp add: go_rem_def word_sle_eq word_sless_alt signed_modulo_int_def sgn_if
      signed_eq_0_iff)

lemma sint_go_int_bounds:
  fixes a :: go_int
  shows "- (2 ^ 63) \<le> sint a" "sint a < 2 ^ 63"
  using sint_ge [of a] sint_lt [of a] by simp_all

text \<open>Sums and differences that stay inside the 64 bits are the mathematical ones.\<close>

lemma sint_add_exact:
  fixes a b :: go_int
  shows "- (2 ^ 63) \<le> sint a + sint b \<Longrightarrow> sint a + sint b < 2 ^ 63 \<Longrightarrow>
    sint (a + b) = sint a + sint b"
  by (simp add: sint_word_ariths signed_take_bit_int_eq_self)

lemma sint_sub_exact:
  fixes a b :: go_int
  shows "- (2 ^ 63) \<le> sint a - sint b \<Longrightarrow> sint a - sint b < 2 ^ 63 \<Longrightarrow>
    sint (a - b) = sint a - sint b"
  by (simp add: sint_word_ariths signed_take_bit_int_eq_self)

lemma sint_of_nat_exact: "n < 2 ^ 63 \<Longrightarrow> sint (of_nat n :: go_int) = int n"
  by (simp add: signed_of_nat signed_take_bit_int_eq_self)

lemma sint_len: "length xs < 2 ^ 63 \<Longrightarrow> sint (len xs) = int (length xs)"
  by (simp add: len_def sint_of_nat_exact)

lemma succ_nonneg:
  fixes a m :: go_int
  assumes "0 \<le>s a" "a <s m"
  shows "0 \<le>s a + 1" "sint (a + 1) = sint a + 1"
proof -
  have "sint a < sint m" "0 \<le> sint a"
    using assms by (simp_all add: word_sless_alt word_sle_eq)
  moreover have "sint m < 2 ^ 63" by (rule sint_go_int_bounds)
  ultimately show "sint (a + 1) = sint a + 1"
    using sint_add_exact [of a 1] by simp
  with \<open>0 \<le> sint a\<close> show "0 \<le>s a + 1" by (simp add: word_sle_eq)
qed

lemma pred_nonneg:
  fixes a :: go_int
  assumes "0 <s a"
  shows "0 \<le>s a - 1" "sint (a - 1) = sint a - 1"
proof -
  have "0 < sint a" using assms by (simp add: word_sless_alt)
  moreover have "sint a < 2 ^ 63" by (rule sint_go_int_bounds)
  ultimately show "sint (a - 1) = sint a - 1"
    using sint_sub_exact [of a 1] by simp
  with \<open>0 < sint a\<close> show "0 \<le>s a - 1" by (simp add: word_sle_eq)
qed

text \<open>
  On slices of a length Go can represent, the variable \<open>max\<close> is the length of
  \<open>ItemProgression\<close> when that slice is not empty and the length of
  \<open>CapacityProgression\<close> otherwise.
\<close>

lemma progression_max_as_claimed:
  assumes "length (ItemProgression it) < 2 ^ 63" "length (CapacityProgression it) < 2 ^ 63"
  shows "progression_max it =
    (if ItemProgression it \<noteq> [] then len (ItemProgression it)
     else len (CapacityProgression it))"
  using assms
  by (auto simp: progression_max_def word_sless_alt sint_len) (simp_all add: len_def)

lemma set_field_same [simp]:
  "set_upgradeIndex (upgradeIndex it) it = it"
  "set_Enabled (Enabled it) it = it"
  "set_count (count it) it = it"
  "set_templeIndex (templeIndex it) it = it"
  by (simp_all add: set_upgradeIndex_def set_Enabled_def set_count_def set_templeIndex_def)

lemma set_commute:
  "set_upgradeIndex v (set_Enabled b it) = set_Enabled b (set_upgradeIndex v it)"
  by (simp add: set_upgradeIndex_def set_Enabled_def)

lemma Upgrade_valid_index:
  assumes "Enabled it" "CountMax it = 0" "upgradeIndex it + 1 <s progression_max it"
    "0 \<le>s upgradeIndex it" "upgradeIndex it <s progression_max it"
  shows "Upgrade it = (True, set_upgradeIndex (upgradeIndex it + 1) it)"
proof -
  have "0 \<le>s upgradeIndex it + 1"
    using assms(4,5) by (rule succ_nonneg(1))
  then have "go_rem (upgradeIndex it + 1) (progression_max it) = upgradeIndex it + 1"
    using assms(3) by (rule go_rem_id)
  moreover have "\<not> progression_max it \<le>s upgradeIndex it + 1"
    using assms(3) by (simp add: signed.not_le)
  moreover have "progression_max it \<noteq> 0"
    using assms(4,5) by (auto simp: word_sle_eq word_sless_alt)
  ultimately show ?thesis
    using assms(1,2) by (simp add: Upgrade_def IsCountable_def Let_def)
qed

lemma Downgrade_valid_index:
  assumes "Enabled it" "CountMax it = 0" "upgradeIndex it \<noteq> 0"
    "0 \<le>s upgradeIndex it" "upgradeIndex it <s progression_max it"
  shows "Downgrade it = (True, set_upgradeIndex (upgradeIndex it - 1) it)"
proof -
  have pos: "0 <s upgradeIndex it"
    using assms(3,4) by (simp add: signed.less_le)
  have nonneg: "0 \<le>s upgradeIndex it - 1"
    and pred: "sint (upgradeIndex it - 1) = sint (upgradeIndex it) - 1"
    using pred_nonneg [OF pos] by simp_all
  from assms(5) pred have "upgradeIndex it - 1 <s progression_max it"
    by (simp add: word_sless_alt)
  with nonneg have "go_rem (upgradeIndex it - 1) (progression_max it) = upgradeIndex it - 1"
    by (rule go_rem_id)
  moreover from nonneg have "\<not> upgradeIndex it - 1 <s 0"
    by (simp add: signed.not_less)
  moreover have "progression_max it \<noteq> 0"
    using assms(4,5) by (auto simp: word_sle_eq word_sless_alt)
  ultimately show ?thesis
    using assms(1,2) by (simp add: Downgrade_def IsCountable_def Let_def)
qed

section \<open>Upgrade and Downgrade, one call\<close>

text \<open>
  The index of a progression stays valid. The field \<open>upgradeIndex\<close> is private, so an
  item decoded from the configuration starts with \<open>upgradeIndex = 0\<close>, and
  from an index that is zero or a valid index of the progression (\<open>0 \<le> upgradeIndex\<close>,
  and \<open>upgradeIndex < max\<close> unless it is zero), every call of \<open>Upgrade\<close> or \<open>Downgrade\<close>
  leads to such an index again.
\<close>

lemma progression_max_set [simp]:
  "progression_max (set_Enabled b it) = progression_max it"
  "progression_max (set_upgradeIndex v it) = progression_max it"
  "progression_max (set_count v it) = progression_max it"
  by (simp_all add: progression_max_def)

lemma progression_max_countUp [simp]: "progression_max (countUp it) = progression_max it"
  by (simp add: countUp_def Let_def)

lemma progression_max_countDown [simp]: "progression_max (countDown it) = progression_max it"
  by (simp add: countDown_def Let_def)

lemma upgradeIndex_count [simp]:
  "upgradeIndex (countUp it) = upgradeIndex it" "upgradeIndex (countDown it) = upgradeIndex it"
  by (simp_all add: countUp_def countDown_def Let_def)

lemma Upgrade_keeps_valid_index:
  assumes "0 \<le>s upgradeIndex it" "upgradeIndex it = 0 \<or> upgradeIndex it <s progression_max it"
  shows "0 \<le>s upgradeIndex (snd (Upgrade it)) \<and>
    (upgradeIndex (snd (Upgrade it)) = 0 \<or>
     upgradeIndex (snd (Upgrade it)) <s progression_max (snd (Upgrade it)))"
proof (cases "Enabled it \<and> CountMax it = 0 \<and> progression_max it \<noteq> 0 \<and>
    upgradeIndex it + 1 <s progression_max it")
  case True
  have lt: "upgradeIndex it <s progression_max it"
  proof (cases "upgradeIndex it = 0")
    case z: True
    with True have "(1 :: go_int) <s progression_max it" by simp
    then show ?thesis using z by (simp add: word_sless_alt)
  next
    case False
    with assms(2) show ?thesis by simp
  qed
  have "Upgrade it = (True, set_upgradeIndex (upgradeIndex it + 1) it)"
    using True assms(1) lt by (intro Upgrade_valid_index) simp_all
  moreover have "0 \<le>s upgradeIndex it + 1"
    using assms(1) lt by (rule succ_nonneg)
  ultimately show ?thesis using True by simp
next
  case False
  then have "upgradeIndex (snd (Upgrade it)) = upgradeIndex it \<and>
      progression_max (snd (Upgrade it)) = progression_max it"
    by (auto simp: Upgrade_def IsCountable_def Let_def signed.not_le)
  with assms show ?thesis by simp
qed

lemma Downgrade_keeps_valid_index:
  assumes "0 \<le>s upgradeIndex it" "upgradeIndex it = 0 \<or> upgradeIndex it <s progression_max it"
  shows "0 \<le>s upgradeIndex (snd (Downgrade it)) \<and>
    (upgradeIndex (snd (Downgrade it)) = 0 \<or>
     upgradeIndex (snd (Downgrade it)) <s progression_max (snd (Downgrade it)))"
proof (cases "Enabled it \<and> CountMax it = 0 \<and> progression_max it \<noteq> 0 \<and> upgradeIndex it \<noteq> 0")
  case True
  with assms have lt: "upgradeIndex it <s progression_max it" and pos: "0 <s upgradeIndex it"
    by (simp_all add: signed.less_le)
  have "Downgrade it = (True, set_upgradeIndex (upgradeIndex it - 1) it)"
    using True assms(1) lt by (intro Downgrade_valid_index) simp_all
  moreover have "0 \<le>s upgradeIndex it - 1" "sint (upgradeIndex it - 1) = sint (upgradeIndex it) - 1"
    using pos by (rule pred_nonneg)+
  moreover from this lt have "upgradeIndex it - 1 <s progression_max it"
    by (simp add: word_sless_alt)
  ultimately show ?thesis by simp
next
  case False
  then have "upgradeIndex (snd (Downgrade it)) = upgradeIndex it \<and>
      progression_max (snd (Downgrade it)) = progression_max it"
    by (auto simp: Downgrade_def IsCountable_def Let_def)
  with assms show ?thesis by simp
qed

lemma run_calls_keeps_valid_index:
  assumes "0 \<le>s upgradeIndex it" "upgradeIndex it = 0 \<or> upgradeIndex it <s progression_max it"
  shows "0 \<le>s upgradeIndex (run_calls cs it) \<and>
    (upgradeIndex (run_calls cs it) = 0 \<or>
     upgradeIndex (run_calls cs it) <s progression_max (run_calls cs it))"
  using assms
proof (induction cs arbitrary: it)
  case Nil
  then show ?case by simp
next
  case (Cons c cs)
  have "0 \<le>s upgradeIndex (snd (apply_call c it)) \<and>
    (upgradeIndex (snd (apply_call c it)) = 0 \<or>
     upgradeIndex (snd (apply_call c it)) <s progression_max (snd (apply_call c it)))"
    using Upgrade_keeps_valid_index [OF Cons.prems] Downgrade_keeps_valid_index [OF Cons.prems]
    by (cases c) simp_all
  then show ?case using Cons.IH by simp
qed

lemma reached_index_valid:
  assumes "upgradeIndex it0 = 0"
  shows "0 \<le>s upgradeIndex (run_calls cs it0) \<and>
    (upgradeIndex (run_calls cs it0) = 0 \<or>
     upgradeIndex (run_calls cs it0) <s progression_max (run_calls cs it0))"
  using run_calls_keeps_valid_index [of it0 cs] assms by simp

text \<open>
  Claim C1. Take any item the program can hold: one that started with the private
  \<open>upgradeIndex\<close> at zero (its value after the configuration is decoded) and went through
  any sequence of \<open>Upgrade\<close> and \<open>Downgrade\<close> calls. \<open>Upgrade\<close> enables it when it is
  disabled, and reports true. When it is enabled and countable (\<open>CountMax \<noteq> 0\<close>),
  \<open>Upgrade\<close> adds \<open>CountStep\<close> to \<open>count\<close>, lowers the sum to \<open>CountMax\<close> when it is
  above, and reports true. On any other enabled item, with \<open>max\<close> the length of
  \<open>ItemProgression\<close> if that is not empty and of \<open>CapacityProgression\<close> otherwise,
  \<open>Upgrade\<close> reports false and changes nothing when \<open>max = 0\<close> or
  \<open>upgradeIndex + 1 \<ge> max\<close>, and otherwise adds one to \<open>upgradeIndex\<close> (without
  wrapping) and reports true.
\<close>

theorem Upgrade_three_steps:
  assumes "upgradeIndex it0 = 0" "it = run_calls cs it0"
  shows "(\<not> Enabled it \<longrightarrow> Upgrade it = (True, set_Enabled True it)) \<and>
   (Enabled it \<and> CountMax it \<noteq> 0 \<longrightarrow>
      Upgrade it =
        (True, set_count (if CountMax it <s count it + CountStep it then CountMax it
                          else count it + CountStep it) it)) \<and>
   (Enabled it \<and> CountMax it = 0 \<and>
    (progression_max it = 0 \<or> progression_max it \<le>s upgradeIndex it + 1) \<longrightarrow>
      Upgrade it = (False, it)) \<and>
   (Enabled it \<and> CountMax it = 0 \<and>
    \<not> (progression_max it = 0 \<or> progression_max it \<le>s upgradeIndex it + 1) \<longrightarrow>
      Upgrade it = (True, set_upgradeIndex (upgradeIndex it + 1) it) \<and>
      sint (upgradeIndex it + 1) = sint (upgradeIndex it) + 1) \<and>
   (length (ItemProgression it) < 2 ^ 63 \<and> length (CapacityProgression it) < 2 ^ 63 \<longrightarrow>
      progression_max it =
        (if ItemProgression it \<noteq> [] then len (ItemProgression it)
         else len (CapacityProgression it)))"
proof (intro conjI impI)
  assume "\<not> Enabled it"
  then show "Upgrade it = (True, set_Enabled True it)"
    by (simp add: Upgrade_def)
next
  assume "Enabled it \<and> CountMax it \<noteq> 0"
  then show "Upgrade it =
        (True, set_count (if CountMax it <s count it + CountStep it then CountMax it
                          else count it + CountStep it) it)"
    by (simp add: Upgrade_def IsCountable_def countUp_def Let_def)
next
  assume "Enabled it \<and> CountMax it = 0 \<and>
    (progression_max it = 0 \<or> progression_max it \<le>s upgradeIndex it + 1)"
  then show "Upgrade it = (False, it)"
    by (auto simp: Upgrade_def IsCountable_def Let_def)
next
  assume h: "Enabled it \<and> CountMax it = 0 \<and>
    \<not> (progression_max it = 0 \<or> progression_max it \<le>s upgradeIndex it + 1)"
  then have below: "upgradeIndex it + 1 <s progression_max it"
    by (simp add: signed.not_le)
  have nonneg: "0 \<le>s upgradeIndex it"
    and valid: "upgradeIndex it = 0 \<or> upgradeIndex it <s progression_max it"
    using reached_index_valid [OF assms(1), of cs] assms(2) by simp_all
  have lt: "upgradeIndex it <s progression_max it"
  proof (cases "upgradeIndex it = 0")
    case True
    with below have "(1 :: go_int) <s progression_max it" by simp
    then show ?thesis using True by (simp add: word_sless_alt)
  next
    case False
    with valid show ?thesis by simp
  qed
  show "Upgrade it = (True, set_upgradeIndex (upgradeIndex it + 1) it)"
    using h below nonneg lt by (intro Upgrade_valid_index) simp_all
  show "sint (upgradeIndex it + 1) = sint (upgradeIndex it) + 1"
    using nonneg lt by (rule succ_nonneg)
next
  assume "length (ItemProgression it) < 2 ^ 63 \<and> length (CapacityProgression it) < 2 ^ 63"
  then show "progression_max it =
        (if ItemProgression it \<noteq> [] then len (ItemProgression it)
         else len (CapacityProgression it))"
    using progression_max_as_claimed [of it] by simp
qed

text \<open>
  The cases at items reached from the configured quiver and token counter: the disabled
  quiver, the counter at 60 and at its maximum 100, the quiver at its top tier and at
  its bottom tier.
\<close>

lemma example_runs:
  "run_calls [] (quiver 0 False) = quiver 0 False"
  "run_calls [CallUpgrade] (quiver 0 False) = quiver 0 True"
  "run_calls [CallUpgrade, CallUpgrade] (quiver 0 False) = quiver 1 True"
  "run_calls [CallUpgrade, CallUpgrade, CallUpgrade] (quiver 0 False) = quiver 2 True"
  "run_calls [CallUpgrade, CallUpgrade] (token 100 60 0 False) = token 100 60 60 True"
  "run_calls [CallUpgrade, CallUpgrade, CallUpgrade] (token 100 60 0 False) =
     token 100 60 100 True"
  "run_calls [CallUpgrade, CallUpgrade, CallDowngrade] (token 100 60 0 False) =
     token 100 60 0 True"
  by (simp_all add: quiver_def token_def Upgrade_def Downgrade_def IsCountable_def
      countUp_def countDown_def progression_max_def len_def go_rem_def Let_def
      set_Enabled_def set_upgradeIndex_def set_count_def word_sless_alt word_sle_eq
      signed_modulo_int_def)

theorem Upgrade_three_steps_witness:
  "Upgrade (quiver 0 False) = (True, quiver 0 True) \<and>
   Upgrade (token 100 60 60 True) = (True, token 100 60 100 True) \<and>
   Upgrade (token 100 60 100 True) = (True, token 100 60 100 True) \<and>
   Upgrade (quiver 2 True) = (False, quiver 2 True) \<and>
   Upgrade (quiver 0 True) = (True, quiver 1 True) \<and>
   progression_max (quiver 0 True) = 3"
  using
    Upgrade_three_steps [of "quiver 0 False" "quiver 0 False" "[]"]
    Upgrade_three_steps [of "quiver 0 False" "quiver 0 True" "[CallUpgrade]"]
    Upgrade_three_steps [of "quiver 0 False" "quiver 2 True"
      "[CallUpgrade, CallUpgrade, CallUpgrade]"]
    Upgrade_three_steps [of "token 100 60 0 False" "token 100 60 60 True"
      "[CallUpgrade, CallUpgrade]"]
    Upgrade_three_steps [of "token 100 60 0 False" "token 100 60 100 True"
      "[CallUpgrade, CallUpgrade, CallUpgrade]"]
  unfolding example_runs
  by (simp add: quiver_def token_def set_Enabled_def set_upgradeIndex_def set_count_def
      len_def progression_max_def word_sless_alt word_sle_eq)

text \<open>
  Claim C2. For any item the program can hold, as in C1: \<open>Downgrade\<close> reports false on a
  disabled item and changes nothing. On an enabled countable item it subtracts
  \<open>CountStep\<close> from \<open>count\<close> and, when the difference is below zero, sets \<open>count\<close> to
  zero and disables the item; it reports true either way. On any other enabled item,
  with \<open>max\<close> as in \<open>Upgrade\<close>, it disables the item and reports true when \<open>max = 0\<close>
  or \<open>upgradeIndex = 0\<close>, and otherwise takes one from \<open>upgradeIndex\<close> (without
  wrapping) and reports true.
\<close>

theorem Downgrade_three_steps:
  assumes "upgradeIndex it0 = 0" "it = run_calls cs it0"
  shows "(\<not> Enabled it \<longrightarrow> Downgrade it = (False, it)) \<and>
   (Enabled it \<and> CountMax it \<noteq> 0 \<longrightarrow>
      Downgrade it =
        (True, if count it - CountStep it <s 0 then set_Enabled False (set_count 0 it)
               else set_count (count it - CountStep it) it)) \<and>
   (Enabled it \<and> CountMax it = 0 \<and> (progression_max it = 0 \<or> upgradeIndex it = 0) \<longrightarrow>
      Downgrade it = (True, set_Enabled False it)) \<and>
   (Enabled it \<and> CountMax it = 0 \<and> \<not> (progression_max it = 0 \<or> upgradeIndex it = 0) \<longrightarrow>
      Downgrade it = (True, set_upgradeIndex (upgradeIndex it - 1) it) \<and>
      sint (upgradeIndex it - 1) = sint (upgradeIndex it) - 1)"
proof (intro conjI impI)
  assume "\<not> Enabled it"
  then show "Downgrade it = (False, it)"
    by (simp add: Downgrade_def)
next
  assume "Enabled it \<and> CountMax it \<noteq> 0"
  then show "Downgrade it =
        (True, if count it - CountStep it <s 0 then set_Enabled False (set_count 0 it)
               else set_count (count it - CountStep it) it)"
    by (simp add: Downgrade_def IsCountable_def countDown_def Let_def)
next
  assume "Enabled it \<and> CountMax it = 0 \<and> (progression_max it = 0 \<or> upgradeIndex it = 0)"
  then show "Downgrade it = (True, set_Enabled False it)"
    by (auto simp: Downgrade_def IsCountable_def Let_def)
next
  assume h: "Enabled it \<and> CountMax it = 0 \<and>
    \<not> (progression_max it = 0 \<or> upgradeIndex it = 0)"
  have nonneg: "0 \<le>s upgradeIndex it"
    and valid: "upgradeIndex it = 0 \<or> upgradeIndex it <s progression_max it"
    using reached_index_valid [OF assms(1), of cs] assms(2) by simp_all
  from h valid have lt: "upgradeIndex it <s progression_max it" by simp
  show "Downgrade it = (True, set_upgradeIndex (upgradeIndex it - 1) it)"
    using h nonneg lt by (intro Downgrade_valid_index) simp_all
  from h nonneg have "0 <s upgradeIndex it"
    by (simp add: signed.less_le)
  then show "sint (upgradeIndex it - 1) = sint (upgradeIndex it) - 1"
    by (rule pred_nonneg)
qed

text \<open>
  The cases at items reached from the configured quiver and token counter: the disabled
  quiver, the counter at 100 and at 0, the quiver at its bottom tier and at its top
  tier.
\<close>

theorem Downgrade_three_steps_witness:
  "Downgrade (quiver 0 False) = (False, quiver 0 False) \<and>
   Downgrade (token 100 60 100 True) = (True, token 100 60 40 True) \<and>
   Downgrade (token 100 60 0 True) = (True, token 100 60 0 False) \<and>
   Downgrade (quiver 0 True) = (True, quiver 0 False) \<and>
   Downgrade (quiver 2 True) = (True, quiver 1 True)"
  using
    Downgrade_three_steps [of "quiver 0 False" "quiver 0 False" "[]"]
    Downgrade_three_steps [of "quiver 0 False" "quiver 0 True" "[CallUpgrade]"]
    Downgrade_three_steps [of "quiver 0 False" "quiver 2 True"
      "[CallUpgrade, CallUpgrade, CallUpgrade]"]
    Downgrade_three_steps [of "token 100 60 0 False" "token 100 60 0 True"
      "[CallUpgrade, CallUpgrade, CallDowngrade]"]
    Downgrade_three_steps [of "token 100 60 0 False" "token 100 60 100 True"
      "[CallUpgrade, CallUpgrade, CallUpgrade]"]
  unfolding example_runs
  by (simp add: quiver_def token_def set_Enabled_def set_upgradeIndex_def set_count_def
      len_def progression_max_def word_sless_alt word_sle_eq)

section \<open>Sequences of calls on a countable item\<close>

lemma countUp_static [simp]:
  "CountMax (countUp it) = CountMax it" "CountStep (countUp it) = CountStep it"
  "Enabled (countUp it) = Enabled it"
  by (simp_all add: countUp_def Let_def)

lemma countDown_static [simp]:
  "CountMax (countDown it) = CountMax it" "CountStep (countDown it) = CountStep it"
  by (simp_all add: countDown_def Let_def)

lemma countUp_in_range:
  assumes "0 \<le>s count it" "count it \<le>s CountMax it" "0 \<le>s CountStep it"
    "sint (CountMax it) + sint (CountStep it) < 2 ^ 63"
  shows "0 \<le>s count (countUp it) \<and> count (countUp it) \<le>s CountMax it"
proof -
  have b: "0 \<le> sint (count it)" "sint (count it) \<le> sint (CountMax it)" "0 \<le> sint (CountStep it)"
    using assms by (simp_all add: word_sle_eq)
  with assms(4) have "sint (count it + CountStep it) = sint (count it) + sint (CountStep it)"
    by (intro sint_add_exact) simp_all
  with b show ?thesis
    by (simp add: countUp_def Let_def word_sle_eq word_sless_alt)
qed

lemma countDown_exact:
  assumes "0 \<le>s count it" "0 \<le>s CountStep it"
  shows "sint (count it - CountStep it) = sint (count it) - sint (CountStep it)"
proof -
  have "0 \<le> sint (count it)" "0 \<le> sint (CountStep it)"
    using assms by (simp_all add: word_sle_eq)
  moreover have "sint (count it) < 2 ^ 63" "sint (CountStep it) < 2 ^ 63"
    by (rule sint_go_int_bounds)+
  ultimately show ?thesis
    by (intro sint_sub_exact) simp_all
qed

lemma countDown_in_range:
  assumes "0 \<le>s count it" "count it \<le>s CountMax it" "0 \<le>s CountStep it"
  shows "0 \<le>s count (countDown it) \<and> count (countDown it) \<le>s CountMax it"
proof -
  have b: "0 \<le> sint (count it)" "sint (count it) \<le> sint (CountMax it)" "0 \<le> sint (CountStep it)"
    using assms by (simp_all add: word_sle_eq)
  with countDown_exact [OF assms(1,3)] show ?thesis
    by (simp add: countDown_def Let_def word_sle_eq word_sless_alt)
qed

lemma countDown_Enabled:
  assumes "0 \<le>s count it" "0 \<le>s CountStep it" "Enabled it"
  shows "Enabled (countDown it) \<longleftrightarrow> \<not> sint (count it) - sint (CountStep it) < 0"
  using countDown_exact [OF assms(1,2)] assms(3)
  by (simp add: countDown_def Let_def word_sless_alt)

lemma apply_call_static:
  "CountMax (snd (apply_call c it)) = CountMax it \<and> CountStep (snd (apply_call c it)) = CountStep it"
  by (cases c) (simp_all add: Upgrade_def Downgrade_def Let_def)

lemma apply_call_in_range:
  assumes "0 \<le>s count it" "count it \<le>s CountMax it" "0 \<le>s CountStep it"
    "sint (CountMax it) + sint (CountStep it) < 2 ^ 63"
  shows "0 \<le>s count (snd (apply_call c it)) \<and> count (snd (apply_call c it)) \<le>s CountMax it"
  using assms countUp_in_range [of it] countDown_in_range [of it]
  by (cases c) (simp_all add: Upgrade_def Downgrade_def Let_def)

lemma run_calls_in_range:
  assumes "0 \<le>s count it" "count it \<le>s CountMax it" "0 \<le>s CountStep it"
    "sint (CountMax it) + sint (CountStep it) < 2 ^ 63"
  shows "0 \<le>s count (run_calls cs it) \<and> count (run_calls cs it) \<le>s CountMax it \<and>
    CountMax (run_calls cs it) = CountMax it \<and> CountStep (run_calls cs it) = CountStep it"
  using assms
proof (induction cs arbitrary: it)
  case Nil
  then show ?case by simp
next
  case (Cons c cs)
  let ?it1 = "snd (apply_call c it)"
  have st: "CountMax ?it1 = CountMax it" "CountStep ?it1 = CountStep it"
    using apply_call_static [of c it] by simp_all
  have "0 \<le>s count ?it1 \<and> count ?it1 \<le>s CountMax it"
    using Cons.prems by (rule apply_call_in_range)
  with st Cons.prems have "0 \<le>s count (run_calls cs ?it1) \<and>
      count (run_calls cs ?it1) \<le>s CountMax ?it1 \<and>
      CountMax (run_calls cs ?it1) = CountMax ?it1 \<and>
      CountStep (run_calls cs ?it1) = CountStep ?it1"
    by (intro Cons.IH) simp_all
  with st show ?case by simp
qed

text \<open>
  Claim C3, as the code has it. Take a countable item (\<open>CountMax \<noteq> 0\<close>) whose \<open>count\<close>
  starts in \<open>[0, CountMax]\<close>, whose \<open>CountStep\<close> is not negative, and whose
  \<open>CountMax + CountStep\<close> does not exceed the largest \<open>int\<close> (\<open>2^63 - 1\<close>). After any
  sequence of \<open>Upgrade\<close> and \<open>Downgrade\<close> calls \<open>count\<close> is in \<open>[0, CountMax]\<close>; and in
  the state after any such sequence, \<open>Downgrade\<close> on the enabled item leaves it
  disabled exactly when \<open>count - CountStep\<close> is negative, and on the disabled item does
  nothing.
\<close>

theorem countable_count_stays_in_range:
  assumes "CountMax it \<noteq> 0" "0 \<le>s count it" "count it \<le>s CountMax it"
    "0 \<le>s CountStep it" "sint (CountMax it) + sint (CountStep it) < 2 ^ 63"
  shows "0 \<le>s count (run_calls cs it) \<and> count (run_calls cs it) \<le>s CountMax it \<and>
    (Enabled (run_calls cs it) \<longrightarrow>
       (Enabled (snd (Downgrade (run_calls cs it))) \<longleftrightarrow>
          \<not> sint (count (run_calls cs it)) - sint (CountStep it) < 0)) \<and>
    (\<not> Enabled (run_calls cs it) \<longrightarrow> Downgrade (run_calls cs it) = (False, run_calls cs it))"
proof -
  let ?s = "run_calls cs it"
  have r: "0 \<le>s count ?s \<and> count ?s \<le>s CountMax it \<and>
    CountMax ?s = CountMax it \<and> CountStep ?s = CountStep it"
    using assms(2-5) run_calls_in_range [of it cs] by simp
  have "Enabled (snd (Downgrade ?s)) \<longleftrightarrow> \<not> sint (count ?s) - sint (CountStep it) < 0"
    if "Enabled ?s"
    using that r assms(1,4) countDown_Enabled [of ?s]
    by (simp add: Downgrade_def IsCountable_def)
  moreover have "Downgrade ?s = (False, ?s)" if "\<not> Enabled ?s"
    using that by (simp add: Downgrade_def)
  ultimately show ?thesis using r by blast
qed

text \<open>
  A counter with maximum 100 and step 60 that starts at 50: after one upgrade and one
  downgrade it holds 40 and the next downgrade disables it; after the upgrade alone it
  holds 100 and the next downgrade leaves it enabled.
\<close>

theorem countable_count_stays_in_range_witness:
  "0 \<le>s count (run_calls [CallUpgrade, CallDowngrade] (token 100 60 50 True)) \<and>
   count (run_calls [CallUpgrade, CallDowngrade] (token 100 60 50 True)) \<le>s 100 \<and>
   \<not> Enabled (snd (Downgrade (run_calls [CallUpgrade, CallDowngrade] (token 100 60 50 True)))) \<and>
   Enabled (snd (Downgrade (run_calls [CallUpgrade] (token 100 60 50 True))))"
  using countable_count_stays_in_range [of "token 100 60 50 True" "[CallUpgrade, CallDowngrade]"]
    countable_count_stays_in_range [of "token 100 60 50 True" "[CallUpgrade]"]
  by (simp add: token_def Upgrade_def Downgrade_def IsCountable_def countUp_def countDown_def
      Let_def set_count_def set_Enabled_def word_sle_eq word_sless_alt)

text \<open>
  Claim C3 as the specification words it has no bound on \<open>CountMax + CountStep\<close>. A
  counter at its maximum \<open>2^63 - 1\<close> with step 1 satisfies the claim's conditions, and
  one \<open>Upgrade\<close> wraps \<open>count\<close> around to \<open>-2^63\<close>, which the comparison with
  \<open>CountMax\<close> does not catch.
\<close>

theorem count_overflow_counterexample:
  "CountMax (token 0x7FFFFFFFFFFFFFFF 1 0x7FFFFFFFFFFFFFFF True) \<noteq> 0 \<and>
   0 \<le>s count (token 0x7FFFFFFFFFFFFFFF 1 0x7FFFFFFFFFFFFFFF True) \<and>
   count (token 0x7FFFFFFFFFFFFFFF 1 0x7FFFFFFFFFFFFFFF True)
     \<le>s CountMax (token 0x7FFFFFFFFFFFFFFF 1 0x7FFFFFFFFFFFFFFF True) \<and>
   0 \<le>s CountStep (token 0x7FFFFFFFFFFFFFFF 1 0x7FFFFFFFFFFFFFFF True) \<and>
   count (run_calls [CallUpgrade] (token 0x7FFFFFFFFFFFFFFF 1 0x7FFFFFFFFFFFFFFF True)) <s 0"
  by (simp add: token_def Upgrade_def IsCountable_def countUp_def Let_def word_sle_eq
      word_sless_alt)

section \<open>The ladder of a stepped item\<close>

lemma run_calls_append: "run_calls (xs @ ys) it = run_calls ys (run_calls xs it)"
  by (induction xs arbitrary: it) simp_all

lemma run_calls_replicate_Suc:
  "run_calls (replicate (Suc n) c) it = snd (apply_call c (run_calls (replicate n c) it))"
  using run_calls_append [of "replicate n c" "[c]" it]
  by (simp add: replicate_append_same)

lemma capacity_only_max:
  assumes "ItemProgression it = []" "length (CapacityProgression it) = N" "N < 2 ^ 63"
  shows "progression_max it = of_nat N"
  using assms by (auto simp: progression_max_def len_def word_sless_alt sint_of_nat_exact)

lemma of_nat_sless:
  "m < n \<Longrightarrow> n < 2 ^ 63 \<Longrightarrow> (of_nat m :: go_int) <s of_nat n"
  by (simp add: word_sless_alt sint_of_nat_exact)

lemma of_nat_nonneg:
  "n < 2 ^ 63 \<Longrightarrow> 0 \<le>s (of_nat n :: go_int)"
  by (simp add: word_sle_eq sint_of_nat_exact)

lemma of_nat_neq0:
  "0 < n \<Longrightarrow> n < 2 ^ 63 \<Longrightarrow> (of_nat n :: go_int) \<noteq> 0"
  using sint_of_nat_exact [of n] by auto

lemma tier_up:
  assumes "CountMax it = 0" "ItemProgression it = []" "length (CapacityProgression it) = N"
    "N < 2 ^ 63" "Suc k < N"
  shows "Upgrade (set_upgradeIndex (of_nat k) (set_Enabled True it)) =
    (True, set_upgradeIndex (of_nat (Suc k)) (set_Enabled True it))"
proof -
  let ?s = "set_upgradeIndex (of_nat k) (set_Enabled True it)"
  have m: "progression_max ?s = of_nat N"
    using assms by (intro capacity_only_max) simp_all
  have idx: "upgradeIndex ?s = of_nat k" and idx1: "upgradeIndex ?s + 1 = of_nat (Suc k)"
    by simp_all
  from assms(5) have k: "k < N" by simp
  have "Upgrade ?s = (True, set_upgradeIndex (upgradeIndex ?s + 1) ?s)"
  proof (rule Upgrade_valid_index)
    show "upgradeIndex ?s + 1 <s progression_max ?s"
      unfolding idx1 m using assms(5,4) by (rule of_nat_sless)
    show "0 \<le>s upgradeIndex ?s"
      unfolding idx using k assms(4) by (intro of_nat_nonneg) simp
    show "upgradeIndex ?s <s progression_max ?s"
      unfolding idx m using k assms(4) by (rule of_nat_sless)
  qed (simp_all add: assms)
  then show ?thesis unfolding idx1 by simp
qed

lemma tier_down:
  assumes "CountMax it = 0" "ItemProgression it = []" "length (CapacityProgression it) = N"
    "N < 2 ^ 63" "Suc k < N"
  shows "Downgrade (set_upgradeIndex (of_nat (Suc k)) (set_Enabled True it)) =
    (True, set_upgradeIndex (of_nat k) (set_Enabled True it))"
proof -
  let ?s = "set_upgradeIndex (of_nat (Suc k)) (set_Enabled True it)"
  have m: "progression_max ?s = of_nat N"
    using assms by (intro capacity_only_max) simp_all
  have idx: "upgradeIndex ?s = of_nat (Suc k)" and idx1: "upgradeIndex ?s - 1 = of_nat k"
    by simp_all
  from assms(4,5) have k: "Suc k < 2 ^ 63" by simp
  have "Downgrade ?s = (True, set_upgradeIndex (upgradeIndex ?s - 1) ?s)"
  proof (rule Downgrade_valid_index)
    show "upgradeIndex ?s \<noteq> 0"
      unfolding idx using k by (intro of_nat_neq0) simp_all
    show "0 \<le>s upgradeIndex ?s"
      unfolding idx using k by (rule of_nat_nonneg)
    show "upgradeIndex ?s <s progression_max ?s"
      unfolding idx m using assms(5,4) by (rule of_nat_sless)
  qed (simp_all add: assms)
  then show ?thesis unfolding idx1 by simp
qed

lemma tier_top:
  assumes "CountMax it = 0" "ItemProgression it = []" "length (CapacityProgression it) = N"
    "N < 2 ^ 63" "1 \<le> N"
  shows "Upgrade (set_upgradeIndex (of_nat (N - 1)) (set_Enabled True it)) =
    (False, set_upgradeIndex (of_nat (N - 1)) (set_Enabled True it))"
proof -
  let ?s = "set_upgradeIndex (of_nat (N - 1)) (set_Enabled True it)"
  have m: "progression_max ?s = of_nat N"
    using assms by (intro capacity_only_max) simp_all
  have "Suc (N - 1) = N"
    using assms(5) by simp
  moreover have "upgradeIndex ?s + 1 = of_nat (Suc (N - 1))"
    by simp
  ultimately have e: "upgradeIndex ?s + 1 = of_nat N"
    by (simp only:)
  have "progression_max ?s \<le>s upgradeIndex ?s + 1"
    unfolding e m by (rule signed.order_refl)
  then show ?thesis
    using assms(1) by (simp add: Upgrade_def IsCountable_def Let_def)
qed

lemma tier_bottom:
  assumes "CountMax it = 0"
  shows "Downgrade (set_upgradeIndex 0 (set_Enabled True it)) =
    (True, set_Enabled False (set_upgradeIndex 0 it))"
  using assms
  by (simp add: Downgrade_def IsCountable_def Let_def set_commute)

lemma upgrades_reach_tier:
  assumes "CountMax it = 0" "ItemProgression it = []" "length (CapacityProgression it) = N"
    "N < 2 ^ 63" "\<not> Enabled it" "upgradeIndex it = 0" "k < N"
  shows "run_calls (replicate (Suc k) CallUpgrade) it =
    set_upgradeIndex (of_nat k) (set_Enabled True it)"
  using assms(7)
proof (induction k)
  case 0
  have "set_upgradeIndex 0 (set_Enabled True it) = set_Enabled True it"
    using set_field_same(1) [of "set_Enabled True it"] assms(6) by simp
  then show ?case using assms(5) by (simp add: Upgrade_def)
next
  case (Suc k)
  then have "run_calls (replicate (Suc k) CallUpgrade) it =
      set_upgradeIndex (of_nat k) (set_Enabled True it)"
    by simp
  moreover have "Upgrade (set_upgradeIndex (of_nat k) (set_Enabled True it)) =
      (True, set_upgradeIndex (of_nat (Suc k)) (set_Enabled True it))"
    using assms(1-4) Suc.prems by (rule tier_up)
  ultimately show ?case
    by (simp only: run_calls_replicate_Suc [of "Suc k"] apply_call.simps snd_conv)
qed

lemma downgrades_reach_tier:
  assumes "CountMax it = 0" "ItemProgression it = []" "length (CapacityProgression it) = N"
    "N < 2 ^ 63" "j < N"
  shows "run_calls (replicate j CallDowngrade) (set_upgradeIndex (of_nat (N - 1)) (set_Enabled True it)) =
    set_upgradeIndex (of_nat (N - 1 - j)) (set_Enabled True it)"
  using assms(5)
proof (induction j)
  case 0
  then show ?case by simp
next
  case (Suc j)
  then have ih: "run_calls (replicate j CallDowngrade)
      (set_upgradeIndex (of_nat (N - 1)) (set_Enabled True it)) =
      set_upgradeIndex (of_nat (N - 1 - j)) (set_Enabled True it)"
    by simp
  from Suc.prems have eq: "N - 1 - j = Suc (N - 1 - Suc j)" and lt: "Suc (N - 1 - Suc j) < N"
    by simp_all
  have "Downgrade (set_upgradeIndex (of_nat (Suc (N - 1 - Suc j))) (set_Enabled True it)) =
      (True, set_upgradeIndex (of_nat (N - 1 - Suc j)) (set_Enabled True it))"
    using assms(1-4) lt by (rule tier_down)
  with ih eq show ?case
    by (simp only: run_calls_replicate_Suc [of j] apply_call.simps snd_conv)
qed

text \<open>
  Claim C4, as the code has it. Take an item that is not countable, has no
  \<open>ItemProgression\<close> and has \<open>N \<ge> 1\<close> capacities (a slice, so \<open>N < 2^63\<close>), disabled
  and with \<open>upgradeIndex = 0\<close>. The first \<open>Upgrade\<close> only enables it, so it takes \<open>N\<close>
  calls of \<open>Upgrade\<close> to reach the top tier: after them the item is enabled with
  \<open>upgradeIndex = N - 1\<close>, and one more \<open>Upgrade\<close> reports false and changes nothing.
  From there the item stays enabled through fewer than \<open>N\<close> calls of \<open>Downgrade\<close>, and
  \<open>N\<close> calls bring back the item of the start, disabled.
\<close>

theorem stepped_item_ladder:
  assumes "CountMax it = 0" "ItemProgression it = []" "length (CapacityProgression it) = N"
    "1 \<le> N" "N < 2 ^ 63" "\<not> Enabled it" "upgradeIndex it = 0"
  shows "Enabled (run_calls (replicate N CallUpgrade) it) \<and>
    upgradeIndex (run_calls (replicate N CallUpgrade) it) = of_nat (N - 1) \<and>
    Upgrade (run_calls (replicate N CallUpgrade) it) =
      (False, run_calls (replicate N CallUpgrade) it) \<and>
    (\<forall>j<N. Enabled (run_calls (replicate j CallDowngrade)
               (run_calls (replicate N CallUpgrade) it))) \<and>
    \<not> Enabled (run_calls (replicate N CallDowngrade)
         (run_calls (replicate N CallUpgrade) it)) \<and>
    run_calls (replicate N CallDowngrade) (run_calls (replicate N CallUpgrade) it) = it"
proof -
  let ?top = "set_upgradeIndex (of_nat (N - 1)) (set_Enabled True it)"
  from assms(4) have N: "N = Suc (N - 1)" "N - 1 < N" by simp_all
  have top: "run_calls (replicate N CallUpgrade) it = ?top"
    using upgrades_reach_tier [OF assms(1,2,3,5,6,7) N(2)] N(1) by simp
  have down: "run_calls (replicate j CallDowngrade) ?top =
      set_upgradeIndex (of_nat (N - 1 - j)) (set_Enabled True it)" if "j < N" for j
    using assms(1,2,3,5) that by (rule downgrades_reach_tier)
  have "run_calls (replicate (Suc (N - 1)) CallDowngrade) ?top =
      snd (Downgrade (set_upgradeIndex 0 (set_Enabled True it)))"
    using down [OF N(2)] by (simp only: run_calls_replicate_Suc apply_call.simps) simp
  also have "\<dots> = set_Enabled False (set_upgradeIndex 0 it)"
    using tier_bottom [OF assms(1)] by simp
  also have "\<dots> = it"
    using assms(6,7) set_field_same(1,2) [of it] by simp
  finally have off: "run_calls (replicate N CallDowngrade) ?top = it"
    using N(1) by simp
  show ?thesis
    using top off down tier_top [OF assms(1,2,3,5,4)] assms(6) by simp
qed

text \<open>The quiver with its three capacities: three upgrades up, three downgrades down.\<close>

theorem stepped_item_ladder_witness:
  "Enabled (run_calls (replicate 3 CallUpgrade) (quiver 0 False)) \<and>
   upgradeIndex (run_calls (replicate 3 CallUpgrade) (quiver 0 False)) = 2 \<and>
   Upgrade (run_calls (replicate 3 CallUpgrade) (quiver 0 False)) =
     (False, run_calls (replicate 3 CallUpgrade) (quiver 0 False)) \<and>
   run_calls (replicate 3 CallDowngrade) (run_calls (replicate 3 CallUpgrade) (quiver 0 False)) =
     quiver 0 False"
  using stepped_item_ladder [of "quiver 0 False" 3]
  by (simp add: quiver_def)

text \<open>
  Claim C4 as the specification words it counts \<open>N - 1\<close> upgrades from the disabled
  item. With the three capacities of the quiver, two upgrades from the disabled item
  leave \<open>upgradeIndex = 1\<close>, not \<open>2\<close>, and the next \<open>Upgrade\<close> reports true.
\<close>

theorem stepped_item_ladder_counterexample:
  "length (CapacityProgression (quiver 0 False)) = 3 \<and>
   run_calls [CallUpgrade, CallUpgrade] (quiver 0 False) = quiver 1 True \<and>
   upgradeIndex (run_calls [CallUpgrade, CallUpgrade] (quiver 0 False)) \<noteq> 2 \<and>
   Upgrade (run_calls [CallUpgrade, CallUpgrade] (quiver 0 False)) = (True, quiver 2 True)"
  by (simp add: quiver_def Upgrade_def IsCountable_def progression_max_def len_def go_rem_def
      set_upgradeIndex_def set_Enabled_def word_sless_alt word_sle_eq signed_modulo_int_def)

section \<open>Capacity\<close>

text \<open>
  Claim C8, as the code has it. \<open>Capacity\<close> returns \<open>-1\<close> for every item without a
  capacity (\<open>HasCapacity\<close> is false: \<open>CapacityProgression\<close> is empty), countable or not.
  For every countable item (\<open>CountMax \<noteq> 0\<close>) that has a capacity it returns the raw
  \<open>upgradeIndex\<close>. For every other item that has a capacity it evaluates
  \<open>CapacityProgression[upgradeIndex]\<close>: the element at that index when the index is in
  range, Go's index panic otherwise.
\<close>

theorem Capacity_cases:
  "(\<not> HasCapacity it \<longrightarrow> Capacity it = Inr (- 1)) \<and>
   (HasCapacity it \<and> CountMax it \<noteq> 0 \<longrightarrow> Capacity it = Inr (upgradeIndex it)) \<and>
   (HasCapacity it \<and> CountMax it = 0 \<longrightarrow>
      Capacity it = index_go (CapacityProgression it) (upgradeIndex it)) \<and>
   (HasCapacity it \<and> CountMax it = 0 \<and>
    0 \<le>s upgradeIndex it \<and> upgradeIndex it <s len (CapacityProgression it) \<longrightarrow>
      Capacity it = Inr (CapacityProgression it ! unat (upgradeIndex it))) \<and>
   (length (CapacityProgression it) < 2 ^ 63 \<longrightarrow>
      (HasCapacity it \<longleftrightarrow> CapacityProgression it \<noteq> []))"
  by (auto simp: Capacity_def IsCountable_def index_go_def HasCapacity_def word_sless_alt sint_len)

text \<open>
  A token counter without capacities, a countable bomb bag with capacities and index 2,
  and the quiver at index 1.
\<close>

theorem Capacity_cases_witness:
  "Capacity (token 100 1 7 True) = Inr (- 1) \<and>
   Capacity (Item ''Bombs'' 0 0 0 0 [20, 30, 40] [] 2 0 40 5 10 False False True) = Inr 2 \<and>
   Capacity (quiver 1 True) = Inr 40"
  using Capacity_cases [of "token 100 1 7 True"] Capacity_cases [of "quiver 1 True"]
    Capacity_cases [of "Item ''Bombs'' 0 0 0 0 [20, 30, 40] [] 2 0 40 5 10 False False True"]
  by (simp add: token_def quiver_def HasCapacity_def index_go_def len_def word_sless_alt
      word_sle_eq)

text \<open>
  Claim C8 as the specification words it gives the raw index for every countable item.
  The token counter is countable and has no \<open>CapacityProgression\<close>; its index is 0, and
  \<open>Capacity\<close> answers \<open>-1\<close>, because the test of \<open>HasCapacity\<close> comes first.
\<close>

theorem Capacity_countable_counterexample:
  "CountMax (token 100 1 7 True) \<noteq> 0 \<and> upgradeIndex (token 100 1 7 True) = 0 \<and>
   Capacity (token 100 1 7 True) = Inr (- 1)"
  by (simp add: token_def Capacity_def HasCapacity_def len_def)


section \<open>Temple labels\<close>

lemma len_temples: "len temples = 10" "length temples = 10"
  by (simp_all add: len_def temples_def)

lemma sint_small: "- (2 ^ 63) \<le> n \<Longrightarrow> n < 2 ^ 63 \<Longrightarrow> sint (word_of_int n :: go_int) = n"
  by (simp add: signed_of_int signed_take_bit_int_eq_self)

lemma CycleTemple_up_in_range:
  assumes "0 \<le>s templeIndex it" "templeIndex it <s 10"
  shows "sint (templeIndex (CycleTemple True it)) = (sint (templeIndex it) + 1) mod 10"
proof -
  have b: "0 \<le> sint (templeIndex it)" "sint (templeIndex it) < 10"
    using assms by (simp_all add: word_sle_eq word_sless_alt)
  then have s: "sint (templeIndex it + 1) = sint (templeIndex it) + 1"
    using sint_add_exact [of "templeIndex it" 1] by simp
  have "sint (go_rem (templeIndex it + 1) 10) = (sint (templeIndex it) + 1) mod 10"
    using b by (simp add: go_rem_def s signed_modulo_int_def sgn_if sint_small)
  then show ?thesis
    by (simp add: CycleTemple_def len_temples)
qed

lemma CycleTemple_down_in_range:
  assumes "0 \<le>s templeIndex it" "templeIndex it <s 10"
  shows "sint (templeIndex (CycleTemple False it)) = (sint (templeIndex it) - 1) mod 10"
proof -
  have b: "0 \<le> sint (templeIndex it)" "sint (templeIndex it) < 10"
    using assms by (simp_all add: word_sle_eq word_sless_alt)
  then have s: "sint (templeIndex it - 1) = sint (templeIndex it) - 1"
    using sint_sub_exact [of "templeIndex it" 1] by simp
  show ?thesis
  proof (cases "templeIndex it - 1 <s 0")
    case True
    then have "sint (templeIndex it) = 0"
      using b by (simp add: word_sless_alt s)
    with True show ?thesis
      by (simp add: CycleTemple_def len_temples)
  next
    case False
    then have "0 \<le> sint (templeIndex it) - 1"
      by (simp add: word_sless_alt s)
    with False b show ?thesis
      by (simp add: CycleTemple_def s)
  qed
qed

lemma CycleTemple_in_range:
  assumes "0 \<le>s templeIndex it" "templeIndex it <s 10"
  shows "sint (templeIndex (CycleTemple up it)) =
    (sint (templeIndex it) + (if up then 1 else - 1)) mod 10"
  using CycleTemple_up_in_range [OF assms] CycleTemple_down_in_range [OF assms]
  by (cases up) simp_all

lemma CycleTemple_other_fields:
  "Enabled (CycleTemple up it) = Enabled it"
  "count (CycleTemple up it) = count it"
  "upgradeIndex (CycleTemple up it) = upgradeIndex it"
  by (simp_all add: CycleTemple_def)

lemma CycleTemple_commutes:
  "CycleTemple up (set_Enabled e it) = set_Enabled e (CycleTemple up it)"
  "CycleTemple up (set_count c it) = set_count c (CycleTemple up it)"
  "CycleTemple up (set_upgradeIndex u it) = set_upgradeIndex u (CycleTemple up it)"
  by (simp_all add: CycleTemple_def set_templeIndex_def set_Enabled_def set_count_def
      set_upgradeIndex_def)

text \<open>
  Claim C7, as the code has it. The table of temple labels has ten entries (the empty
  label and nine names). On an item whose \<open>templeIndex\<close> is an index of the table
  (\<open>0 \<le> templeIndex < 10\<close>), \<open>CycleTemple(up)\<close> adds one to \<open>templeIndex\<close> or takes one
  from it, modulo ten: from the last label it goes up to the first, from the first down
  to the last. For every item it leaves \<open>Enabled\<close>, \<open>count\<close> and \<open>upgradeIndex\<close> as they
  are, and its result does not depend on them: assigning any of the three before the
  call or after it gives the same item.
\<close>

theorem CycleTemple_modulo_ten:
  "length temples = 10 \<and>
   (0 \<le>s templeIndex it \<and> templeIndex it <s 10 \<longrightarrow>
      sint (templeIndex (CycleTemple up it)) =
        (sint (templeIndex it) + (if up then 1 else - 1)) mod 10) \<and>
   (templeIndex it = 9 \<longrightarrow> templeIndex (CycleTemple True it) = 0) \<and>
   (templeIndex it = 0 \<longrightarrow> templeIndex (CycleTemple False it) = 9) \<and>
   Enabled (CycleTemple up it) = Enabled it \<and>
   count (CycleTemple up it) = count it \<and>
   upgradeIndex (CycleTemple up it) = upgradeIndex it \<and>
   CycleTemple up (set_Enabled e it) = set_Enabled e (CycleTemple up it) \<and>
   CycleTemple up (set_count c it) = set_count c (CycleTemple up it) \<and>
   CycleTemple up (set_upgradeIndex u it) = set_upgradeIndex u (CycleTemple up it)"
proof -
  have "templeIndex (CycleTemple True it) = 0" if "templeIndex it = 9"
    using that by (simp add: CycleTemple_def len_temples go_rem_def signed_modulo_int_def)
  moreover have "templeIndex (CycleTemple False it) = 9" if "templeIndex it = 0"
    using that by (simp add: CycleTemple_def len_temples)
  ultimately show ?thesis
    using CycleTemple_in_range [of it up] CycleTemple_other_fields [of up it]
      CycleTemple_commutes [of up] len_temples(2)
    by simp
qed

text \<open>A medallion at the last label, at the first, and at the label before the last.\<close>

theorem CycleTemple_modulo_ten_witness:
  "templeIndex (CycleTemple True (medallion 9)) = 0 \<and>
   templeIndex (CycleTemple False (medallion 0)) = 9 \<and>
   sint (templeIndex (CycleTemple True (medallion 8))) = 9 \<and>
   sint (templeIndex (CycleTemple False (medallion 8))) = 7"
  using CycleTemple_modulo_ten [of "medallion 9"] CycleTemple_modulo_ten [of "medallion 0"]
    CycleTemple_modulo_ten [of "medallion 8" True] CycleTemple_modulo_ten [of "medallion 8" False]
  by (simp add: medallion_def word_sle_eq word_sless_alt)

text \<open>
  Claim C7 as the specification words it has a table of nine entries and speaks of every
  item. The table has ten: going up from index 8 gives 9, where a cycle of nine would
  give 0, and going down from 0 gives 9, where it would give 8. And outside the table
  the step is no step modulo the length: going down from \<open>-5\<close> gives 9, not
  \<open>-6 mod 10 = 4\<close>.
\<close>

theorem CycleTemple_nine_entries_counterexample:
  "length temples \<noteq> 9 \<and>
   sint (templeIndex (CycleTemple True (medallion 8))) \<noteq>
     (sint (templeIndex (medallion 8)) + 1) mod 9 \<and>
   sint (templeIndex (CycleTemple False (medallion 0))) \<noteq>
     (sint (templeIndex (medallion 0)) - 1) mod 9 \<and>
   sint (templeIndex (CycleTemple False (medallion (- 5)))) \<noteq>
     (sint (templeIndex (medallion (- 5))) - 1) mod 10"
  by (simp add: medallion_def CycleTemple_def len_def temples_def go_rem_def
      signed_modulo_int_def word_sless_alt)

text \<open>
  Claim C10. For every item whose \<open>templeIndex\<close> is in \<open>[0, 10)\<close>, the length of the
  table of labels, one \<open>CycleTemple\<close> in either direction, and so any sequence of them,
  leaves \<open>templeIndex\<close> in \<open>[0, 10)\<close>; \<open>TempleText\<close> before and after the calls returns
  the label at that index and does not panic. The index of a zero-initialised item is 0.
\<close>

theorem TempleText_in_bounds:
  assumes "0 \<le>s templeIndex it" "templeIndex it <s 10"
  shows "0 \<le>s templeIndex (CycleTemple up it) \<and> templeIndex (CycleTemple up it) <s 10 \<and>
    TempleText (CycleTemple up it) = Inr (temples ! unat (templeIndex (CycleTemple up it))) \<and>
    TempleText it = Inr (temples ! unat (templeIndex it)) \<and>
    0 \<le>s templeIndex (fold CycleTemple ups it) \<and> templeIndex (fold CycleTemple ups it) <s 10 \<and>
    TempleText (fold CycleTemple ups it) =
      Inr (temples ! unat (templeIndex (fold CycleTemple ups it)))"
proof -
  have step: "0 \<le>s templeIndex (CycleTemple b x) \<and> templeIndex (CycleTemple b x) <s 10"
    if "0 \<le>s templeIndex x" "templeIndex x <s 10" for b x
    using CycleTemple_in_range [OF that, of b]
    by (simp add: word_sle_eq word_sless_alt)
  have label: "TempleText x = Inr (temples ! unat (templeIndex x))"
    if "0 \<le>s templeIndex x" "templeIndex x <s 10" for x
    using that by (simp add: TempleText_def index_go_def len_temples)
  have many: "0 \<le>s templeIndex (fold CycleTemple ups x) \<and>
      templeIndex (fold CycleTemple ups x) <s 10"
    if "0 \<le>s templeIndex x" "templeIndex x <s 10" for x
    using that
  proof (induction ups arbitrary: x)
    case Nil
    then show ?case by simp
  next
    case (Cons b ups)
    then show ?case using step [of x b] by simp
  qed
  show ?thesis
    using step [OF assms, of up] many [OF assms] label assms by simp
qed

text \<open>A medallion as it is created, with index 0.\<close>

theorem TempleText_in_bounds_witness:
  "TempleText (CycleTemple False (medallion 0)) = Inr ''Shdw'' \<and>
   TempleText (medallion 0) = Inr [] \<and>
   TempleText (fold CycleTemple [True, True, False] (medallion 0)) = Inr ''Free''"
  using TempleText_in_bounds [of "medallion 0" False "[True, True, False]"]
  by (simp add: medallion_def CycleTemple_def len_def temples_def go_rem_def
      signed_modulo_int_def word_sle_eq word_sless_alt)


section \<open>Zone-item lookup\<close>

lemma unat_nonneg:
  assumes "0 \<le>s (w :: go_int)"
  shows "unat w = nat (sint w)"
proof -
  from assms have "0 \<le> sint w" by (simp add: word_sle_eq)
  moreover have "sint w < 2 ^ 63" by (rule sint_go_int_bounds)
  ultimately have "uint w = sint w"
    by (simp add: uint_sint [of w] take_bit_int_eq_self)
  then show ?thesis by (simp flip: nat_uint_eq)
qed

lemma keypad_index:
  assumes "1 \<le>s (d :: go_int)"
  shows "unat (d - 1) = nat (sint d - 1)"
proof -
  have "0 <s d" using assms by (simp add: word_sle_eq word_sless_alt)
  then have "0 \<le>s d - 1" "sint (d - 1) = sint d - 1" by (rule pred_nonneg)+
  then show ?thesis by (simp add: unat_nonneg)
qed

lemma not_in_keypad: "\<not> (1 \<le>s d \<and> d \<le>s 9) \<longleftrightarrow> d \<le>s 0 \<or> 9 <s (d :: go_int)"
  by (auto simp: word_sle_eq word_sless_alt)

text \<open>
  Claim C5. \<open>GetZoneItem(zoneKP, itemKP)\<close> fails with a range error when a digit is
  outside \<open>[1, 9]\<close> (the message names the zone digit when that one is out of range,
  the item digit otherwise); with both digits in range it fails with the error of an
  undefined cell when \<open>zoneItemMap[zoneKP-1][itemKP-1]\<close> is the empty string, and returns
  that cell's name otherwise. With \<open>Hookshot\<close> in cell \<open>[4][4]\<close>, \<open>GetZoneItem(5, 5)\<close>
  returns \<open>Hookshot\<close>; \<open>GetZoneItem(0, 5)\<close> and \<open>GetZoneItem(10, 5)\<close> fail with the range
  error. The tracker after the call is the tracker before it, on every path.
\<close>

theorem GetZoneItem_cases:
  "(\<not> (1 \<le>s zoneKP \<and> zoneKP \<le>s 9) \<longrightarrow>
      GetZoneItem t zoneKP itemKP = (([], Some InvalidZoneKP), t)) \<and>
   (1 \<le>s zoneKP \<and> zoneKP \<le>s 9 \<and> \<not> (1 \<le>s itemKP \<and> itemKP \<le>s 9) \<longrightarrow>
      GetZoneItem t zoneKP itemKP = (([], Some InvalidItemKP), t)) \<and>
   (1 \<le>s zoneKP \<and> zoneKP \<le>s 9 \<and> 1 \<le>s itemKP \<and> itemKP \<le>s 9 \<longrightarrow>
      GetZoneItem t zoneKP itemKP =
        (if zoneItemMap t ! nat (sint zoneKP - 1) ! nat (sint itemKP - 1) = []
         then (([], Some (NoItemDefined zoneKP itemKP)), t)
         else ((zoneItemMap t ! nat (sint zoneKP - 1) ! nat (sint itemKP - 1), None), t))) \<and>
   (zoneItemMap t ! 4 ! 4 = ''Hookshot'' \<longrightarrow>
      GetZoneItem t 5 5 = ((''Hookshot'', None), t)) \<and>
   GetZoneItem t 0 5 = (([], Some InvalidZoneKP), t) \<and>
   GetZoneItem t 10 5 = (([], Some InvalidZoneKP), t) \<and>
   snd (GetZoneItem t zoneKP itemKP) = t"
proof (intro conjI impI)
  assume "\<not> (1 \<le>s zoneKP \<and> zoneKP \<le>s 9)"
  then have "zoneKP \<le>s 0 \<or> 9 <s zoneKP"
    by (simp only: not_in_keypad)
  then show "GetZoneItem t zoneKP itemKP = (([], Some InvalidZoneKP), t)"
    by (simp add: GetZoneItem_def)
next
  assume h: "1 \<le>s zoneKP \<and> zoneKP \<le>s 9 \<and> \<not> (1 \<le>s itemKP \<and> itemKP \<le>s 9)"
  then have "\<not> (zoneKP \<le>s 0 \<or> 9 <s zoneKP)"
    using not_in_keypad [of zoneKP] by blast
  moreover from h have "itemKP \<le>s 0 \<or> 9 <s itemKP"
    by (simp only: not_in_keypad)
  ultimately show "GetZoneItem t zoneKP itemKP = (([], Some InvalidItemKP), t)"
    by (simp add: GetZoneItem_def)
next
  assume h: "1 \<le>s zoneKP \<and> zoneKP \<le>s 9 \<and> 1 \<le>s itemKP \<and> itemKP \<le>s 9"
  then have "\<not> (zoneKP \<le>s 0 \<or> 9 <s zoneKP)" "\<not> (itemKP \<le>s 0 \<or> 9 <s itemKP)"
    using not_in_keypad [of zoneKP] not_in_keypad [of itemKP] by blast+
  moreover from h have "unat (zoneKP - 1) = nat (sint zoneKP - 1)"
    "unat (itemKP - 1) = nat (sint itemKP - 1)"
    by (simp_all add: keypad_index)
  ultimately show "GetZoneItem t zoneKP itemKP =
        (if zoneItemMap t ! nat (sint zoneKP - 1) ! nat (sint itemKP - 1) = []
         then (([], Some (NoItemDefined zoneKP itemKP)), t)
         else ((zoneItemMap t ! nat (sint zoneKP - 1) ! nat (sint itemKP - 1), None), t))"
    by (simp add: GetZoneItem_def Let_def)
next
  assume "zoneItemMap t ! 4 ! 4 = ''Hookshot''"
  then show "GetZoneItem t 5 5 = ((''Hookshot'', None), t)"
    by (simp add: GetZoneItem_def word_sle_eq word_sless_alt)
next
  show "GetZoneItem t 0 5 = (([], Some InvalidZoneKP), t)"
    by (simp add: GetZoneItem_def)
  show "GetZoneItem t 10 5 = (([], Some InvalidZoneKP), t)"
    by (simp add: GetZoneItem_def word_sle_eq word_sless_alt)
  show "snd (GetZoneItem t zoneKP itemKP) = t"
    by (simp add: GetZoneItem_def Let_def)
qed

lemma hookshot_map_cells:
  "hookshot_map ! 4 ! 4 = ''Hookshot''" "hookshot_map ! 0 ! 1 = ''Boomerang''"
  "hookshot_map ! 0 ! 0 = []"
  by (simp_all add: hookshot_map_def numeral_eq_Suc)

text \<open>
  The example tracker: a defined cell, an empty cell, a zone digit and an item digit
  out of range.
\<close>

theorem GetZoneItem_cases_witness:
  "GetZoneItem hookshot_tracker 5 5 = ((''Hookshot'', None), hookshot_tracker) \<and>
   GetZoneItem hookshot_tracker 1 1 = (([], Some (NoItemDefined 1 1)), hookshot_tracker) \<and>
   GetZoneItem hookshot_tracker 0 5 = (([], Some InvalidZoneKP), hookshot_tracker) \<and>
   GetZoneItem hookshot_tracker 5 10 = (([], Some InvalidItemKP), hookshot_tracker)"
  using GetZoneItem_cases [of 5 hookshot_tracker 5] GetZoneItem_cases [of 1 hookshot_tracker 1]
    GetZoneItem_cases [of 5 hookshot_tracker 10] hookshot_map_cells
  by (simp add: hookshot_tracker_def word_sle_eq word_sless_alt)

lemma index_by_name_from_absent:
  "name \<notin> Name ` set xs \<Longrightarrow> index_by_name_from k xs name = - 1"
  by (induction xs arbitrary: k) auto

lemma index_by_name_from_present:
  "name \<in> Name ` set xs \<Longrightarrow>
   index_by_name_from k xs name = k + of_nat (length (takeWhile (\<lambda>x. Name x \<noteq> name) xs))"
  by (induction xs arbitrary: k) auto

lemma first_index_props:
  assumes "name \<in> Name ` set xs"
  shows "length (takeWhile (\<lambda>x. Name x \<noteq> name) xs) < length xs \<and>
    Name (xs ! length (takeWhile (\<lambda>x. Name x \<noteq> name) xs)) = name \<and>
    (\<forall>j < length (takeWhile (\<lambda>x. Name x \<noteq> name) xs). Name (xs ! j) \<noteq> name)"
  using assms
proof (induction xs)
  case Nil
  then show ?case by simp
next
  case (Cons x xs)
  show ?case
  proof (cases "Name x = name")
    case True
    then show ?thesis by simp
  next
    case False
    with Cons.prems have "name \<in> Name ` set xs" by auto
    then show ?thesis
      using Cons.IH False by (auto simp: nth_Cons split: nat.splits)
  qed
qed

lemma hookshot_tracker_fields:
  "zoneItemMap hookshot_tracker = hookshot_map"
  "items hookshot_tracker =
     [quiver 0 False,
      Item ''Hookshot'' 0 0 0 0 [] [] 0 0 0 0 0 False False False,
      Item ''Hookshot'' 0 0 0 0 [] [] 0 0 0 0 0 False False True]"
  by (simp_all add: hookshot_tracker_def)

lemma GetZoneItem_errors:
  "GetZoneItem t zoneKP itemKP = ((name, Some err), t1) \<Longrightarrow> err \<noteq> ItemNameMisconfigured n"
  by (auto simp: GetZoneItem_def Let_def split: if_splits)

lemma GetZoneItem_same: "GetZoneItem t zoneKP itemKP = (r, t1) \<Longrightarrow> t1 = t"
  by (auto simp: GetZoneItem_def Let_def split: if_splits)

text \<open>
  Claim C6. \<open>GetZoneItemIndex(zoneKP, itemKP)\<close> looks the name up that \<open>GetZoneItem\<close>
  resolves. An error of \<open>GetZoneItem\<close> is passed on with the index \<open>-1\<close>, and it is
  never the misconfiguration error. When \<open>GetZoneItem\<close> succeeds, the result is the
  misconfiguration error with index \<open>-1\<close> if no item of the catalog has the resolved
  name, and otherwise the index of the first item of the catalog with that name. The
  tracker is left as it was. \<open>Reset\<close> installs whatever catalog and map it is given, so
  a cell that names an absent item is met by the lookup, not when the map is loaded.
  (The catalog is a Go slice, so it has fewer than \<open>2^63\<close> items.)
\<close>

theorem GetZoneItemIndex_cases:
  assumes "length (items t) < 2 ^ 63"
  shows "(case GetZoneItem t zoneKP itemKP of
      ((name, Some err), t1) \<Rightarrow>
        GetZoneItemIndex t zoneKP itemKP = ((- 1, Some err), t) \<and>
        (\<forall>n. err \<noteq> ItemNameMisconfigured n)
    | ((name, None), t1) \<Rightarrow>
        (let k = length (takeWhile (\<lambda>x. Name x \<noteq> name) (items t))
         in if name \<in> Name ` set (items t)
            then GetZoneItemIndex t zoneKP itemKP = ((of_nat k, None), t) \<and>
                 k < length (items t) \<and> Name (items t ! k) = name \<and>
                 (\<forall>j<k. Name (items t ! j) \<noteq> name)
            else GetZoneItemIndex t zoneKP itemKP =
                   ((- 1, Some (ItemNameMisconfigured name)), t))) \<and>
    items (Reset its zm t) = its \<and> zoneItemMap (Reset its zm t) = zm"
proof -
  have lookup: "(case GetZoneItem t zoneKP itemKP of
      ((name, Some err), t1) \<Rightarrow>
        GetZoneItemIndex t zoneKP itemKP = ((- 1, Some err), t) \<and>
        (\<forall>n. err \<noteq> ItemNameMisconfigured n)
    | ((name, None), t1) \<Rightarrow>
        (let k = length (takeWhile (\<lambda>x. Name x \<noteq> name) (items t))
         in if name \<in> Name ` set (items t)
            then GetZoneItemIndex t zoneKP itemKP = ((of_nat k, None), t) \<and>
                 k < length (items t) \<and> Name (items t ! k) = name \<and>
                 (\<forall>j<k. Name (items t ! j) \<noteq> name)
            else GetZoneItemIndex t zoneKP itemKP =
                   ((- 1, Some (ItemNameMisconfigured name)), t)))"
  proof (cases "GetZoneItem t zoneKP itemKP")
    case (Pair r t1)
    then have t1: "t1 = t" by (rule GetZoneItem_same)
    obtain name e where r: "r = (name, e)" by (cases r)
    show ?thesis
    proof (cases e)
      case (Some err)
      with Pair r show ?thesis
        using GetZoneItem_errors [of t zoneKP itemKP name err t1]
        by (simp add: GetZoneItemIndex_def t1)
    next
      case None
      show ?thesis
      proof (cases "name \<in> Name ` set (items t)")
        case True
        let ?k = "length (takeWhile (\<lambda>x. Name x \<noteq> name) (items t))"
        have k: "?k < length (items t)"
          using first_index_props [OF True] by simp
        with assms have "?k < 2 ^ 63" by simp
        then have "\<not> (of_nat ?k :: go_int) <s 0"
          by (simp add: word_sless_alt sint_of_nat_exact)
        moreover have "getItemIndexByName t name = of_nat ?k"
          using True by (simp add: getItemIndexByName_def index_by_name_from_present)
        ultimately have "GetZoneItemIndex t zoneKP itemKP = ((of_nat ?k, None), t)"
          using Pair r None by (simp add: GetZoneItemIndex_def t1)
        then show ?thesis
          using Pair r None True first_index_props [OF True] by (simp add: Let_def)
      next
        case False
        then have "getItemIndexByName t name = - 1"
          by (simp add: getItemIndexByName_def index_by_name_from_absent)
        then show ?thesis
          using Pair r None False by (simp add: GetZoneItemIndex_def t1 Let_def)
      qed
    qed
  qed
  have "items (Reset its zm t) = its \<and> zoneItemMap (Reset its zm t) = zm"
    by (simp add: Reset_def)
  with lookup show ?thesis by (rule conjI)
qed

text \<open>
  The example tracker, whose catalog holds \<open>Hookshot\<close> twice, at the indices 1 and 2,
  and no \<open>Boomerang\<close>: the first index is returned, the absent name and the errors of
  \<open>GetZoneItem\<close> come with the index \<open>-1\<close>.
\<close>

theorem GetZoneItemIndex_cases_witness:
  "GetZoneItemIndex hookshot_tracker 5 5 = ((1, None), hookshot_tracker) \<and>
   GetZoneItemIndex hookshot_tracker 1 2 =
     ((- 1, Some (ItemNameMisconfigured ''Boomerang'')), hookshot_tracker) \<and>
   GetZoneItemIndex hookshot_tracker 1 1 =
     ((- 1, Some (NoItemDefined 1 1)), hookshot_tracker) \<and>
   GetZoneItemIndex hookshot_tracker 10 5 = ((- 1, Some InvalidZoneKP), hookshot_tracker)"
proof -
  have len: "length (items hookshot_tracker) < 2 ^ 63"
    by (simp add: hookshot_tracker_fields)
  have g: "GetZoneItem hookshot_tracker 5 5 = ((''Hookshot'', None), hookshot_tracker)"
    "GetZoneItem hookshot_tracker 1 2 = ((''Boomerang'', None), hookshot_tracker)"
    "GetZoneItem hookshot_tracker 1 1 = (([], Some (NoItemDefined 1 1)), hookshot_tracker)"
    "GetZoneItem hookshot_tracker 10 5 = (([], Some InvalidZoneKP), hookshot_tracker)"
    using hookshot_map_cells
    by (simp_all add: GetZoneItem_def hookshot_tracker_fields word_sle_eq word_sless_alt)
  show ?thesis
    using GetZoneItemIndex_cases [OF len, of 5 5] GetZoneItemIndex_cases [OF len, of 1 2]
      GetZoneItemIndex_cases [OF len, of 1 1] GetZoneItemIndex_cases [OF len, of 10 5]
    by (simp add: g hookshot_tracker_fields quiver_def)
qed

section \<open>Reset\<close>

text \<open>
  Claim C9. \<open>Reset(items, zoneItemMap)\<close> installs its two arguments as the catalog and
  the zone-item map, and whatever the tracker held before, afterwards the undo stack,
  the redo stack, \<open>woths\<close>, \<open>barrens\<close> and \<open>sometimes\<close> are empty and \<open>always\<close> is
  seven empty strings.
\<close>

theorem Reset_replaces_and_clears:
  "items (Reset its zm tracker) = its \<and>
   zoneItemMap (Reset its zm tracker) = zm \<and>
   undoStack (Reset its zm tracker) = [] \<and>
   redoStack (Reset its zm tracker) = [] \<and>
   woths (Reset its zm tracker) = [] \<and>
   barrens (Reset its zm tracker) = [] \<and>
   sometimes (Reset its zm tracker) = [] \<and>
   always (Reset its zm tracker) = [[], [], [], [], [], [], []]"
  by (simp add: Reset_def numeral_eq_Suc)

end
